theory Spec2Isabelle
  imports Main "HOL-Library.Char_ord"
begin

section \<open>Host-language strings and arrays\<close>

text \<open>
  The engine is the class \<open>DiffTester\<close> of \<open>src/tests/diff-application.test.ts\<close>.
  Its strings are modelled as \<open>string\<close>: one \<open>char\<close> per code unit, for code units
  below 256. Its numbers are modelled as \<open>int\<close>; the source's numbers are doubles, which
  are exact on the integers below \<open>2 ^ 53\<close>. An array slot that holds \<open>undefined\<close> (a read
  outside the array) is \<open>None\<close>.
\<close>

abbreviation LF :: char where "LF \<equiv> CHR 0x0A"
abbreviation CR :: char where "CR \<equiv> CHR 0x0D"

text \<open>\<open>s.replace(/\r\n/g, '\n')\<close>: every CR LF pair, found left to right, becomes LF.\<close>

fun replaceCRLF :: "string \<Rightarrow> string" where
  "replaceCRLF (c # d # cs) =
     (if c = CR \<and> d = LF then LF # replaceCRLF cs else c # replaceCRLF (d # cs))"
| "replaceCRLF cs = cs"

text \<open>\<open>s.split('\n')\<close>: the empty string splits into one empty line.\<close>

fun splitLF :: "string \<Rightarrow> string list" where
  "splitLF [] = [[]]"
| "splitLF (c # cs) =
     (if c = LF then [] # splitLF cs
      else (case splitLF cs of l # ls \<Rightarrow> (c # l) # ls | [] \<Rightarrow> [[c]]))"

text \<open>\<open>xs.join('\n')\<close> on strings.\<close>

fun joinLF :: "string list \<Rightarrow> string" where
  "joinLF [] = []"
| "joinLF [l] = l"
| "joinLF (l # ls) = l @ LF # joinLF ls"

type_synonym jsarray = "string option list"

text \<open>\<open>xs[i]\<close>: \<open>undefined\<close> outside the array, negative indices included.\<close>

definition at :: "jsarray \<Rightarrow> int \<Rightarrow> string option" where
  "at xs i = (if 0 \<le> i \<and> i < int (length xs) then xs ! nat i else None)"

text \<open>\<open>join\<close> renders an \<open>undefined\<close> element as the empty string.\<close>

fun render :: "string option \<Rightarrow> string" where
  "render None = []"
| "render (Some s) = s"

definition joinArray :: "jsarray \<Rightarrow> string" where
  "joinArray xs = joinLF (map render xs)"

definition startsWith :: "string \<Rightarrow> string \<Rightarrow> bool" where
  "startsWith s p = (take (length p) s = p)"

text \<open>
  \<open>s.trim()\<close> strips white space and line terminators from both ends. Below 256 these are
  TAB, LF, VT, FF, CR, SPACE and NBSP.
\<close>

definition isWhiteSpace :: "char \<Rightarrow> bool" where
  "isWhiteSpace c = (c \<in> set [CHR 0x09, LF, CHR 0x0B, CHR 0x0C, CR, CHR 0x20, CHR 0xA0])"

definition trim :: "string \<Rightarrow> string" where
  "trim s = rev (dropWhile isWhiteSpace (rev (dropWhile isWhiteSpace s)))"

text \<open>\<open>\d\<close> and \<open>parseInt\<close> on a string of decimal digits.\<close>

definition isDigit :: "char \<Rightarrow> bool" where
  "isDigit c = (CHR ''0'' \<le> c \<and> c \<le> CHR ''9'')"

definition digitValue :: "char \<Rightarrow> int" where
  "digitValue c = int (of_char c) - 48"

definition parseInt :: "string \<Rightarrow> int" where
  "parseInt ds = foldl (\<lambda>n c. 10 * n + digitValue c) 0 ds"

section \<open>Data model\<close>

datatype lineType = Context | Delete | Add

record hunkLine =
  type :: lineType
  content :: string

record hunk =
  oldStart :: int
  oldCount :: int
  newStart :: int
  newCount :: int
  lines :: "hunkLine list"

datatype validationMode = strict | normalized

text \<open>
  The two errors the source throws, by their messages (\<open>Invalid hunk header: <line>\<close> and
  \<open>Hunk validation failed: context mismatch at line <n>\<close>), and the runtime's own
  \<open>TypeError\<close>, raised when \<open>trim\<close> is called on \<open>undefined\<close>.
\<close>

datatype error =
    MalformedHunkHeader string
  | HunkValidationFailed int
  | TypeError

section \<open>The header pattern\<close>

text \<open>
  \<open>line.match(/@@ -(\d+)(?:,(\d+))? \+(\d+)(?:,(\d+))? @@/)\<close>. The pattern is not anchored:
  the match may start at any position of the line, the leftmost one wins, and text may
  follow it. At a fixed start the match is determined: a greedy \<open>\d+\<close> is followed by a
  character that is not a digit, so giving digits back never helps, and an optional group
  that is skipped leaves a comma where a space is required.
\<close>

fun stripPrefix :: "string \<Rightarrow> string \<Rightarrow> string option" where
  "stripPrefix [] s = Some s"
| "stripPrefix (p # ps) [] = None"
| "stripPrefix (p # ps) (c # cs) = (if p = c then stripPrefix ps cs else None)"

text \<open>\<open>(?:,(\d+))?\<close>: the capture, if the group took part, and the rest of the input.\<close>

fun optCount :: "string \<Rightarrow> string option \<times> string" where
  "optCount [] = (None, [])"
| "optCount (c # cs) =
     (if c = CHR '','' \<and> takeWhile isDigit cs \<noteq> []
      then (Some (takeWhile isDigit cs), dropWhile isDigit cs)
      else (None, c # cs))"

type_synonym captures = "string \<times> string option \<times> string \<times> string option"

definition matchHere :: "string \<Rightarrow> captures option" where
  "matchHere s =
     (case stripPrefix ''@@ -'' s of
        None \<Rightarrow> None
      | Some r1 \<Rightarrow>
          if takeWhile isDigit r1 = [] then None
          else
            (case optCount (dropWhile isDigit r1) of
               (g2, r3) \<Rightarrow>
                 (case stripPrefix '' +'' r3 of
                    None \<Rightarrow> None
                  | Some r4 \<Rightarrow>
                      if takeWhile isDigit r4 = [] then None
                      else
                        (case optCount (dropWhile isDigit r4) of
                           (g4, r6) \<Rightarrow>
                             (case stripPrefix '' @@'' r6 of
                                None \<Rightarrow> None
                              | Some r7 \<Rightarrow>
                                  Some (takeWhile isDigit r1, g2, takeWhile isDigit r4, g4))))))"

fun matchHeader :: "string \<Rightarrow> captures option" where
  "matchHeader [] = matchHere []"
| "matchHeader (c # cs) =
     (case matchHere (c # cs) of Some m \<Rightarrow> Some m | None \<Rightarrow> matchHeader cs)"

text \<open>
  The hunk a header opens: \<open>parseInt(match[1]) - 1\<close>, \<open>parseInt(match[2] || '1')\<close>, and the
  same for the new side. A capture that took part is a non-empty string, which is truthy.
\<close>

definition newHunk :: "captures \<Rightarrow> hunk" where
  "newHunk m =
     (case m of (g1, g2, g3, g4) \<Rightarrow>
        \<lparr> oldStart = parseInt g1 - 1,
          oldCount = parseInt (case g2 of None \<Rightarrow> ''1'' | Some d \<Rightarrow> d),
          newStart = parseInt g3 - 1,
          newCount = parseInt (case g4 of None \<Rightarrow> ''1'' | Some d \<Rightarrow> d),
          lines = [] \<rparr>)"

section \<open>parseUnifiedDiffHunks\<close>

definition flush :: "hunk list \<Rightarrow> hunk option \<Rightarrow> hunk list" where
  "flush hunks currentHunk =
     (case currentHunk of None \<Rightarrow> hunks | Some h \<Rightarrow> hunks @ [h])"

definition lineTypeOf :: "string \<Rightarrow> lineType" where
  "lineTypeOf line =
     (if startsWith line '' '' then Context
      else if startsWith line ''-'' then Delete else Add)"

definition pushLine :: "hunk \<Rightarrow> string \<Rightarrow> hunk" where
  "pushLine h line =
     h\<lparr> lines := lines h @ [\<lparr> type = lineTypeOf line, content = tl line \<rparr>] \<rparr>"

text \<open>The loop over \<open>diffLines\<close>, with its two variables \<open>hunks\<close> and \<open>currentHunk\<close>.\<close>

fun parseLoop :: "string list \<Rightarrow> hunk list \<Rightarrow> hunk option \<Rightarrow> error + hunk list" where
  "parseLoop [] hunks currentHunk = Inr (flush hunks currentHunk)"
| "parseLoop (line # rest) hunks currentHunk =
     (if startsWith line ''@@'' then
        (case matchHeader line of
           None \<Rightarrow> Inl (MalformedHunkHeader line)
         | Some m \<Rightarrow> parseLoop rest (flush hunks currentHunk) (Some (newHunk m)))
      else if currentHunk \<noteq> None \<and>
          (startsWith line '' '' \<or> startsWith line ''-'' \<or> startsWith line ''+'') then
        parseLoop rest hunks (Some (pushLine (the currentHunk) line))
      else parseLoop rest hunks currentHunk)"

definition parseUnifiedDiffHunks :: "string list \<Rightarrow> error + hunk list" where
  "parseUnifiedDiffHunks diffLines = parseLoop diffLines [] None"

section \<open>validateHunk\<close>

text \<open>
  The loop over \<open>hunk.lines\<close> with its cursor \<open>originalIndex\<close>. The bounds check looks at the
  upper end only: at a negative cursor \<open>originalLines[originalIndex]\<close> is \<open>undefined\<close>,
  which is never \<open>===\<close> a string, and \<open>undefined.trim()\<close> raises.
\<close>

fun validateLoop ::
  "string list \<Rightarrow> validationMode \<Rightarrow> int \<Rightarrow> hunkLine list \<Rightarrow> error + bool" where
  "validateLoop originalLines mode originalIndex [] = Inr True"
| "validateLoop originalLines mode originalIndex (line # rest) =
     (if type line = Context \<or> type line = Delete then
        if originalIndex \<ge> int (length originalLines) then Inr False
        else
          (case mode of
             strict \<Rightarrow>
               if at (map Some originalLines) originalIndex = Some (content line)
               then validateLoop originalLines mode (originalIndex + 1) rest
               else Inr False
           | normalized \<Rightarrow>
               (case at (map Some originalLines) originalIndex of
                  None \<Rightarrow> Inl TypeError
                | Some originalLine \<Rightarrow>
                    if trim originalLine = trim (content line)
                    then validateLoop originalLines mode (originalIndex + 1) rest
                    else Inr False))
      else validateLoop originalLines mode originalIndex rest)"

definition validateHunk :: "string list \<Rightarrow> hunk \<Rightarrow> validationMode \<Rightarrow> error + bool" where
  "validateHunk originalLines h mode = validateLoop originalLines mode (oldStart h) (lines h)"

section \<open>applyHunk\<close>

text \<open>
  \<open>while (originalIndex < stop) { result.push(lines[originalIndex]); originalIndex++ }\<close>,
  the first and the third loop of \<open>applyHunk\<close>. It returns the result and the cursor.
\<close>

function copyLoop :: "jsarray \<Rightarrow> int \<Rightarrow> int \<Rightarrow> jsarray \<Rightarrow> jsarray \<times> int" where
  "copyLoop lns stop originalIndex result =
     (if originalIndex < stop
      then copyLoop lns stop (originalIndex + 1) (result @ [at lns originalIndex])
      else (result, originalIndex))"
  by pat_completeness auto
termination
  by (relation "measure (\<lambda>(lns, stop, originalIndex, result). nat (stop - originalIndex))") auto

text \<open>The second loop, over \<open>hunk.lines\<close>.\<close>

fun hunkLoop :: "jsarray \<Rightarrow> hunkLine list \<Rightarrow> int \<Rightarrow> jsarray \<Rightarrow> jsarray \<times> int" where
  "hunkLoop lns [] originalIndex result = (result, originalIndex)"
| "hunkLoop lns (hunkLine # rest) originalIndex result =
     (case type hunkLine of
        Context \<Rightarrow> hunkLoop lns rest (originalIndex + 1) (result @ [at lns originalIndex])
      | Delete \<Rightarrow> hunkLoop lns rest (originalIndex + 1) result
      | Add \<Rightarrow> hunkLoop lns rest originalIndex (result @ [Some (content hunkLine)]))"

definition applyHunk :: "jsarray \<Rightarrow> hunk \<Rightarrow> jsarray" where
  "applyHunk lns h =
     (case copyLoop lns (oldStart h) 0 [] of
        (r1, i1) \<Rightarrow>
          (case hunkLoop lns (lines h) i1 r1 of
             (r2, i2) \<Rightarrow> fst (copyLoop lns (int (length lns)) i2 r2)))"

section \<open>applyUnifiedDiff\<close>

text \<open>
  The validation loop with its variable \<open>validationMode\<close>: a hunk that fails in the current
  mode switches the mode to normalized, for itself and for every later hunk.
\<close>

fun validateAll :: "string list \<Rightarrow> validationMode \<Rightarrow> hunk list \<Rightarrow> error + unit" where
  "validateAll originalLines validationMode [] = Inr ()"
| "validateAll originalLines validationMode (h # hunks) =
     (case validateHunk originalLines h validationMode of
        Inl e \<Rightarrow> Inl e
      | Inr True \<Rightarrow> validateAll originalLines validationMode hunks
      | Inr False \<Rightarrow>
          (case validateHunk originalLines h normalized of
             Inl e \<Rightarrow> Inl e
           | Inr False \<Rightarrow> Inl (HunkValidationFailed (oldStart h + 1))
           | Inr True \<Rightarrow> validateAll originalLines normalized hunks))"

text \<open>\<open>for (let i = hunks.length - 1; i >= 0; i--) result = applyHunk(result, hunks[i])\<close>;
  the counter \<open>n\<close> is \<open>i + 1\<close>.\<close>

fun applyLoop :: "hunk list \<Rightarrow> nat \<Rightarrow> jsarray \<Rightarrow> jsarray" where
  "applyLoop hunks 0 result = result"
| "applyLoop hunks (Suc i) result = applyLoop hunks i (applyHunk result (hunks ! i))"

definition originalLinesOf :: "string \<Rightarrow> string list" where
  "originalLinesOf originalContent =
     (let normalizedOriginal = replaceCRLF originalContent
      in if normalizedOriginal = [] then [] else splitLF normalizedOriginal)"

definition diffLinesOf :: "string \<Rightarrow> string list" where
  "diffLinesOf unifiedDiff = splitLF (replaceCRLF unifiedDiff)"

definition applyUnifiedDiff :: "string \<Rightarrow> string \<Rightarrow> error + string" where
  "applyUnifiedDiff originalContent unifiedDiff =
     (let originalLines = originalLinesOf originalContent;
          diffLines = diffLinesOf unifiedDiff
      in case parseUnifiedDiffHunks diffLines of
           Inl e \<Rightarrow> Inl e
         | Inr hunks \<Rightarrow>
             (case validateAll originalLines strict hunks of
                Inl e \<Rightarrow> Inl e
              | Inr u \<Rightarrow>
                  Inr (joinArray (applyLoop hunks (length hunks) (map Some originalLines)))))"

section \<open>The header pattern as a language\<close>







section \<open>The validation phase as specified\<close>

text \<open>A hunk passes validation in a mode when \<open>validateHunk\<close> returns true.\<close>

definition passes :: "string list \<Rightarrow> validationMode \<Rightarrow> hunk \<Rightarrow> bool" where
  "passes originalLines mode h = (validateHunk originalLines h mode = Inr True)"

text \<open>
  The validation procedure in the specification's words: validate every hunk in strict
  mode; if any hunk fails, validate every hunk again in normalized mode, and the first
  hunk that fails then aborts the call with its \<open>oldStart + 1\<close>.
\<close>

fun revalidateNormalized :: "string list \<Rightarrow> hunk list \<Rightarrow> error + unit" where
  "revalidateNormalized originalLines [] = Inr ()"
| "revalidateNormalized originalLines (h # hunks) =
     (case validateHunk originalLines h normalized of
        Inl e \<Rightarrow> Inl e
      | Inr False \<Rightarrow> Inl (HunkValidationFailed (oldStart h + 1))
      | Inr True \<Rightarrow> revalidateNormalized originalLines hunks)"

definition validateBatch :: "string list \<Rightarrow> hunk list \<Rightarrow> error + unit" where
  "validateBatch originalLines hunks =
     (if list_all (passes originalLines strict) hunks then Inr ()
      else revalidateNormalized originalLines hunks)"

section \<open>The patched content as specified\<close>

text \<open>
  The result of a whole diff in the specification's words. A hunk starts at its recorded
  offset (a header's old start 0, stored as \<open>-1\<close>, stands for the top of the content) and
  covers as many lines as it has context and delete lines. Its edit is what walking its
  lines writes: the line under the cursor for a context line, nothing for a delete line,
  the hunk's text for an add line.
\<close>

definition atN :: "jsarray \<Rightarrow> nat \<Rightarrow> string option" where
  "atN xs n = (if n < length xs then xs ! n else None)"

definition start :: "hunk \<Rightarrow> nat" where
  "start h = nat (oldStart h)"

fun consumed :: "hunkLine list \<Rightarrow> nat" where
  "consumed [] = 0"
| "consumed (l # ls) = (if type l = Add then consumed ls else Suc (consumed ls))"

fun hunkOutput :: "jsarray \<Rightarrow> nat \<Rightarrow> hunkLine list \<Rightarrow> jsarray" where
  "hunkOutput lns i [] = []"
| "hunkOutput lns i (l # ls) =
     (case type l of
        Context \<Rightarrow> atN lns i # hunkOutput lns (Suc i) ls
      | Delete \<Rightarrow> hunkOutput lns (Suc i) ls
      | Add \<Rightarrow> Some (content l) # hunkOutput lns i ls)"

text \<open>
  Hunks in non-decreasing order that do not overlap: each starts at or after the line
  where the one before it ends. \<open>c\<close> is the end of the hunk before.
\<close>

fun ordered :: "nat \<Rightarrow> hunk list \<Rightarrow> bool" where
  "ordered c [] = True"
| "ordered c (h # hs) = (c \<le> start h \<and> ordered (start h + consumed (lines h)) hs)"

text \<open>
  The content with every hunk's edit in place of the lines the hunk covers, and the
  original's lines everywhere else, from line \<open>c\<close> of the original on.
\<close>

fun spliced :: "jsarray \<Rightarrow> nat \<Rightarrow> hunk list \<Rightarrow> jsarray" where
  "spliced lns c [] = drop c lns"
| "spliced lns c (h # hs) =
     map (atN lns) [c..<start h] @ hunkOutput lns (start h) (lines h)
       @ spliced lns (start h + consumed (lines h)) hs"

text \<open>
  Where a hunk's edit begins in the result: at its recorded offset, moved by the lines
  that the hunks before it added and deleted. \<open>kept\<close> counts the lines an edit writes.
\<close>

fun kept :: "hunkLine list \<Rightarrow> nat" where
  "kept [] = 0"
| "kept (l # ls) = (if type l = Delete then kept ls else Suc (kept ls))"

definition netChange :: "hunk \<Rightarrow> int" where
  "netChange h = int (kept (lines h)) - int (consumed (lines h))"

definition editPosition :: "hunk list \<Rightarrow> nat \<Rightarrow> nat" where
  "editPosition hs k = nat (int (start (hs ! k)) + sum_list (map netChange (take k hs)))"

section \<open>Line endings\<close>

text \<open>
  A text with LF-only line endings has no CR LF pair. \<open>withCRLF bs s\<close> is \<open>s\<close> with some of
  its line endings replaced by CR LF: the \<open>n\<close>-th LF of \<open>s\<close> is replaced when the \<open>n\<close>-th
  element of \<open>bs\<close> is true.
\<close>

fun hasCRLF :: "string \<Rightarrow> bool" where
  "hasCRLF (c # d # cs) = ((c = CR \<and> d = LF) \<or> hasCRLF (d # cs))"
| "hasCRLF cs = False"

fun withCRLF :: "bool list \<Rightarrow> string \<Rightarrow> string" where
  "withCRLF bs [] = []"
| "withCRLF bs (c # cs) =
     (if c = LF then
        (case bs of
           [] \<Rightarrow> LF # withCRLF [] cs
         | b # bs' \<Rightarrow> if b then CR # LF # withCRLF bs' cs else LF # withCRLF bs' cs)
      else c # withCRLF bs cs)"

text \<open>A line of text: it holds no line terminator of its own.\<close>

definition plainLine :: "string \<Rightarrow> bool" where
  "plainLine l = (LF \<notin> set l \<and> CR \<notin> set l)"

section \<open>White space in context lines\<close>

text \<open>
  A hunk whose context and delete lines differ from the original lines under the cursor
  by leading and trailing white space at most. A hunk with such lines starts inside the
  content (its header's old start is not 0).
\<close>

fun trimMatches :: "string list \<Rightarrow> nat \<Rightarrow> hunkLine list \<Rightarrow> bool" where
  "trimMatches originalLines i [] = True"
| "trimMatches originalLines i (l # ls) =
     (if type l = Add then trimMatches originalLines i ls
      else i < length originalLines \<and> trim (originalLines ! i) = trim (content l)
           \<and> trimMatches originalLines (Suc i) ls)"

definition whitespaceOnly :: "string list \<Rightarrow> hunk \<Rightarrow> bool" where
  "whitespaceOnly originalLines h =
     ((consumed (lines h) = 0 \<or> 0 \<le> oldStart h)
      \<and> trimMatches originalLines (start h) (lines h))"


section \<open>Properties\<close>

subsection \<open>The error surface\<close>

text \<open>
  C2. The claim: \<open>apply\<close> either returns the rewritten content or fails with
  \<open>MalformedHunkHeader\<close> or \<open>HunkValidationFailed\<close>, and in no other way. The code at the
  original \<open>a\<close> and the diff whose header is \<open>@@ -0,1 +0,1 @@\<close> and whose only line is the
  context line \<open>a\<close>: the header's old start 0 becomes the cursor \<open>-1\<close>, the bounds check of
  \<open>validateHunk\<close> passes it, strict validation reads \<open>undefined\<close> and returns false, and
  the normalized retry calls \<open>trim\<close> on \<open>undefined\<close>: the call ends in a \<open>TypeError\<close>,
  which is neither of the two errors.
\<close>

theorem applyUnifiedDiff_negative_cursor_TypeError:
  "applyUnifiedDiff ''a'' ''@@ -0,1 +0,1 @@\<newline> a'' = Inl TypeError"
  by code_simp

subsection \<open>Splitting and joining\<close>

lemma splitLF_not_Nil: "splitLF s \<noteq> []"
  by (induction s) (auto split: list.splits)

lemma joinLF_Cons: "ls \<noteq> [] \<Longrightarrow> joinLF (l # ls) = l @ LF # joinLF ls"
  by (cases ls) simp_all

lemma joinLF_push: "joinLF ((c # l) # ls) = c # joinLF (l # ls)"
  by (cases ls) simp_all

lemma joinLF_splitLF: "joinLF (splitLF s) = s"
proof (induction s)
  case Nil
  show ?case by simp
next
  case (Cons c cs)
  obtain l ls where sp: "splitLF cs = l # ls"
    using splitLF_not_Nil [of cs] by (cases "splitLF cs") auto
  show ?case
  proof (cases "c = LF")
    case True
    then show ?thesis using Cons.IH splitLF_not_Nil [of cs] by (simp add: joinLF_Cons)
  next
    case False
    then show ?thesis using Cons.IH sp by (simp add: joinLF_push)
  qed
qed

lemma joinLF_originalLinesOf: "joinLF (originalLinesOf s) = replaceCRLF s"
  by (simp add: originalLinesOf_def Let_def joinLF_splitLF)

lemma joinArray_map_Some: "joinArray (map Some ls) = joinLF ls"
  by (simp add: joinArray_def comp_def)

subsection \<open>Diffs without a hunk\<close>

lemma parseLoop_no_marker:
  "\<forall>l \<in> set ls. \<not> startsWith l ''@@'' \<Longrightarrow>
     parseLoop (ls @ rest) hunks None = parseLoop rest hunks None"
  by (induction ls) simp_all

lemma applyUnifiedDiff_no_hunks:
  "parseUnifiedDiffHunks (diffLinesOf d) = Inr [] \<Longrightarrow>
     applyUnifiedDiff c d = Inr (replaceCRLF c)"
  by (simp add: applyUnifiedDiff_def joinArray_map_Some joinLF_originalLinesOf)

text \<open>
  C7. For every original content, a diff text none of whose lines begins with the hunk
  marker \<open>@@\<close> (a diff of zero hunks) applies successfully, and the result is the original
  split into lines and joined with LF again, which is the original with every CR LF
  replaced by LF.
\<close>

theorem zero_hunks_noop:
  assumes "\<forall>l \<in> set (diffLinesOf unifiedDiff). \<not> startsWith l ''@@''"
  shows "applyUnifiedDiff originalContent unifiedDiff
           = Inr (joinLF (originalLinesOf originalContent))
       \<and> joinLF (originalLinesOf originalContent) = replaceCRLF originalContent"
proof -
  have "parseUnifiedDiffHunks (diffLinesOf unifiedDiff) = Inr []"
    using parseLoop_no_marker [OF assms, of "[]" "[]"]
    by (simp add: parseUnifiedDiffHunks_def flush_def)
  then show ?thesis
    by (simp add: applyUnifiedDiff_no_hunks joinLF_originalLinesOf)
qed

theorem zero_hunks_noop_witness:
  "applyUnifiedDiff (''a'' @ [CR, LF] @ ''b'') ''some text''
     = Inr (joinLF (originalLinesOf (''a'' @ [CR, LF] @ ''b'')))
   \<and> joinLF (originalLinesOf (''a'' @ [CR, LF] @ ''b'')) = ''a\<newline>b''"
  using zero_hunks_noop [of "''some text''" "''a'' @ [CR, LF] @ ''b''"]
  by (simp add: diffLinesOf_def startsWith_def)

text \<open>
  C10. Lines that stand before the first hunk header are ignored by the parser, whatever
  they begin with (space, \<open>-\<close> and \<open>+\<close> included): parsing a diff with such a preamble gives
  what parsing the rest gives. So a diff with no line that begins with \<open>@@\<close> parses to zero
  hunks, and applying it returns the (line-ending normalized) original.
\<close>

theorem preamble_ignored:
  assumes "\<forall>l \<in> set pre. \<not> startsWith l ''@@''"
  shows "parseUnifiedDiffHunks (pre @ rest) = parseUnifiedDiffHunks rest
       \<and> parseUnifiedDiffHunks pre = Inr []
       \<and> (diffLinesOf unifiedDiff = pre \<longrightarrow>
            applyUnifiedDiff originalContent unifiedDiff = Inr (replaceCRLF originalContent))"
proof -
  have a: "parseUnifiedDiffHunks (pre @ rest) = parseUnifiedDiffHunks rest"
    using parseLoop_no_marker [OF assms] by (simp add: parseUnifiedDiffHunks_def)
  have b: "parseUnifiedDiffHunks pre = Inr []"
    using parseLoop_no_marker [OF assms, of "[]" "[]"]
    by (simp add: parseUnifiedDiffHunks_def flush_def)
  show ?thesis using a b by (simp add: applyUnifiedDiff_no_hunks)
qed

theorem preamble_ignored_witness:
  "parseUnifiedDiffHunks ([''-old line'', ''+new line'', '' kept''] @ [''@@ -1 +1 @@'', ''+x''])
     = parseUnifiedDiffHunks [''@@ -1 +1 @@'', ''+x'']
   \<and> parseUnifiedDiffHunks [''-old line'', ''+new line'', '' kept''] = Inr []
   \<and> applyUnifiedDiff ''some content'' ''-old line\<newline>+new line\<newline> kept''
       = Inr ''some content''"
  using preamble_ignored [of "[''-old line'', ''+new line'', '' kept'']"
      "[''@@ -1 +1 @@'', ''+x'']" "''-old line\<newline>+new line\<newline> kept''" "''some content''"]
  by (simp add: startsWith_def diffLinesOf_def)

subsection \<open>Hunk headers\<close>


lemma not_digit_comma [simp]: "\<not> isDigit (CHR '','')"
  by (simp add: isDigit_def)

lemma not_digit_space [simp]: "\<not> isDigit (CHR '' '')"
  by (simp add: isDigit_def)
















subsection \<open>The validation phase\<close>

lemma validateLoop_strict_normalized:
  "validateLoop L strict i ls = Inr True \<Longrightarrow> validateLoop L normalized i ls = Inr True"
proof (induction ls arbitrary: i)
  case Nil
  show ?case by simp
next
  case (Cons l ls)
  show ?case
  proof (cases "type l = Context \<or> type l = Delete")
    case True
    with Cons.prems have inb: "\<not> i \<ge> int (length L)"
      and eq: "at (map Some L) i = Some (content l)"
      and rest: "validateLoop L strict (i + 1) ls = Inr True"
      by (auto split: if_splits)
    from Cons.IH [OF rest] True inb eq show ?thesis by simp
  next
    case False
    with Cons.prems have "validateLoop L strict i ls = Inr True" by simp
    from Cons.IH [OF this] False show ?thesis by simp
  qed
qed

lemma passes_strict_normalized: "passes L strict h \<Longrightarrow> passes L normalized h"
  by (simp add: passes_def validateHunk_def validateLoop_strict_normalized)

lemma validateLoop_strict_total: "\<exists>b. validateLoop L strict i ls = Inr b"
  by (induction ls arbitrary: i) auto

lemma validateHunk_strict_cases:
  "validateHunk L h strict = Inr True \<or> validateHunk L h strict = Inr False"
  using validateLoop_strict_total [of L "oldStart h" "lines h"]
  by (auto simp: validateHunk_def)

lemma validateAll_normalized: "validateAll L normalized hs = revalidateNormalized L hs"
  by (induction hs) (auto split: sum.splits bool.splits)

lemma validateAll_strict:
  "validateAll L strict hs =
     (if list_all (passes L strict) hs then Inr () else revalidateNormalized L hs)"
proof (induction hs)
  case Nil
  show ?case by simp
next
  case (Cons h hs)
  from validateHunk_strict_cases [of L h] show ?case
  proof
    assume t: "validateHunk L h strict = Inr True"
    then have "passes L strict h" by (simp add: passes_def)
    then have "validateHunk L h normalized = Inr True"
      using passes_strict_normalized by (simp add: passes_def)
    with t Cons.IH show ?thesis by (simp add: passes_def)
  next
    assume f: "validateHunk L h strict = Inr False"
    then have "\<not> passes L strict h" by (simp add: passes_def)
    with f show ?thesis
      by (simp add: validateAll_normalized split: sum.splits bool.splits)
  qed
qed

lemma revalidateNormalized_ok:
  "revalidateNormalized L hs = Inr () \<longleftrightarrow> list_all (passes L normalized) hs"
  by (induction hs) (auto simp: passes_def split: sum.splits bool.splits)

lemma revalidateNormalized_error:
  "revalidateNormalized L hs = Inl e \<longleftrightarrow>
     (\<exists>h. find (\<lambda>h. \<not> passes L normalized h) hs = Some h \<and>
          e = (case validateHunk L h normalized of
                 Inl e' \<Rightarrow> e' | Inr b \<Rightarrow> HunkValidationFailed (oldStart h + 1)))"
  by (induction hs) (auto simp: passes_def split: sum.splits bool.splits)

text \<open>
  The validation loop of \<open>applyUnifiedDiff\<close>, which switches its mode to normalized at
  the first hunk that fails and does not look at the earlier hunks again, returns what the
  specification's procedure returns (strict for every hunk, else normalized for every
  hunk). It succeeds exactly when every hunk passes strict validation or every hunk
  passes normalized validation. When it fails, the outcome is that of the first hunk that
  does not pass normalized validation: \<open>HunkValidationFailed\<close> with that hunk's
  \<open>oldStart + 1\<close> when its validation returns false, and the runtime error when its
  validation raises one.
\<close>

lemma validateAll_characterised:
  "validateAll originalLines strict hunks = validateBatch originalLines hunks
   \<and> (validateAll originalLines strict hunks = Inr () \<longleftrightarrow>
        (\<forall>h \<in> set hunks. passes originalLines strict h) \<or>
        (\<forall>h \<in> set hunks. passes originalLines normalized h))
   \<and> (validateAll originalLines strict hunks = Inl e \<longrightarrow>
        (\<exists>h. find (\<lambda>h. \<not> passes originalLines normalized h) hunks = Some h \<and>
             e = (case validateHunk originalLines h normalized of
                    Inl e' \<Rightarrow> e' | Inr b \<Rightarrow> HunkValidationFailed (oldStart h + 1))))"
proof -
  have a: "validateAll originalLines strict hunks = validateBatch originalLines hunks"
    by (simp add: validateAll_strict validateBatch_def)
  have sn: "list_all (passes originalLines strict) hunks \<Longrightarrow>
      list_all (passes originalLines normalized) hunks"
    by (simp add: list_all_iff passes_strict_normalized)
  have b: "validateAll originalLines strict hunks = Inr () \<longleftrightarrow>
        (\<forall>h \<in> set hunks. passes originalLines strict h) \<or>
        (\<forall>h \<in> set hunks. passes originalLines normalized h)"
    using sn by (auto simp: validateAll_strict revalidateNormalized_ok list_all_iff)
  have c: "validateAll originalLines strict hunks = Inl e \<longrightarrow>
        (\<exists>h. find (\<lambda>h. \<not> passes originalLines normalized h) hunks = Some h \<and>
             e = (case validateHunk originalLines h normalized of
                    Inl e' \<Rightarrow> e' | Inr b \<Rightarrow> HunkValidationFailed (oldStart h + 1)))"
    by (simp add: validateAll_strict revalidateNormalized_error split: if_splits)
  show ?thesis using a b c by blast
qed

lemma validateAll_characterised_example:
  "validateAll [''  line1  '', ''line2''] strict
       [\<lparr> oldStart = 1, oldCount = 1, newStart = 1, newCount = 1,
           lines = [\<lparr> type = Context, content = ''line2'' \<rparr>] \<rparr>,
        \<lparr> oldStart = 0, oldCount = 1, newStart = 0, newCount = 1,
           lines = [\<lparr> type = Context, content = ''line1'' \<rparr>] \<rparr>] = Inr ()
   \<and> validateAll [''line1'', ''line2''] strict
       [\<lparr> oldStart = 0, oldCount = 1, newStart = 0, newCount = 1,
           lines = [\<lparr> type = Context, content = ''line1'' \<rparr>] \<rparr>,
        \<lparr> oldStart = 1, oldCount = 1, newStart = 1, newCount = 1,
           lines = [\<lparr> type = Delete, content = ''wrong'' \<rparr>] \<rparr>]
       = Inl (HunkValidationFailed 2)"
  using validateAll_characterised [of "[''  line1  '', ''line2'']"
      "[\<lparr> oldStart = 1, oldCount = 1, newStart = 1, newCount = 1,
           lines = [\<lparr> type = Context, content = ''line2'' \<rparr>] \<rparr>,
        \<lparr> oldStart = 0, oldCount = 1, newStart = 0, newCount = 1,
           lines = [\<lparr> type = Context, content = ''line1'' \<rparr>] \<rparr>]" "TypeError"]
    validateAll_characterised [of "[''line1'', ''line2'']"
      "[\<lparr> oldStart = 0, oldCount = 1, newStart = 0, newCount = 1,
           lines = [\<lparr> type = Context, content = ''line1'' \<rparr>] \<rparr>,
        \<lparr> oldStart = 1, oldCount = 1, newStart = 1, newCount = 1,
           lines = [\<lparr> type = Delete, content = ''wrong'' \<rparr>] \<rparr>]" "HunkValidationFailed 2"]
  by (simp add: passes_def validateHunk_def at_def trim_def isWhiteSpace_def validateBatch_def)

text \<open>
  C4. The claim: for every batch of parsed hunks the validation phase succeeds exactly
  when every hunk passes strict validation or every hunk passes normalized validation,
  and when it fails it reports \<open>oldStart + 1\<close> of the first hunk that fails normalized
  validation. The code at the batch parsed from the diff whose header is
  \<open>@@ -0,1 +0,1 @@\<close> and whose only line is the context line \<open>a\<close>, against the original
  \<open>a\<close>: the one hunk does not pass normalized validation, and the phase does not report
  its line: the cursor is \<open>-1\<close>, the bounds check of \<open>validateHunk\<close> lets it through, and
  the phase ends in the runtime's \<open>TypeError\<close>. This is the slip of C2. Where no hunk's
  validation raises, the lemma above gives what the claim says.
\<close>

theorem validateAll_negative_cursor_reports_no_line:
  "parseUnifiedDiffHunks (diffLinesOf ''@@ -0,1 +0,1 @@\<newline> a'')
     = Inr [\<lparr> oldStart = - 1, oldCount = 1, newStart = - 1, newCount = 1,
              lines = [\<lparr> type = Context, content = ''a'' \<rparr>] \<rparr>]
   \<and> \<not> passes (originalLinesOf ''a'') normalized
         \<lparr> oldStart = - 1, oldCount = 1, newStart = - 1, newCount = 1,
           lines = [\<lparr> type = Context, content = ''a'' \<rparr>] \<rparr>
   \<and> validateAll (originalLinesOf ''a'') strict
         [\<lparr> oldStart = - 1, oldCount = 1, newStart = - 1, newCount = 1,
            lines = [\<lparr> type = Context, content = ''a'' \<rparr>] \<rparr>]
       = Inl TypeError"
  by code_simp

subsection \<open>Applying hunks in reverse order\<close>

declare copyLoop.simps [simp del]

lemma at_int: "at lns (int n) = atN lns n"
  by (simp add: at_def atN_def)

lemma at_nat: "0 \<le> i \<Longrightarrow> at lns i = atN lns (nat i)"
  by (simp add: at_def atN_def) linarith

lemma copyLoop_eq:
  "0 \<le> i \<Longrightarrow> copyLoop lns stop i r = (r @ map (atN lns) [nat i..<nat stop], max i stop)"
proof (induction lns stop i r rule: copyLoop.induct)
  case (1 lns stop i r)
  show ?case
  proof (cases "i < stop")
    case True
    have u: "[nat i..<nat stop] = nat i # [nat (i + 1)..<nat stop]"
      using True "1.prems" by (simp add: upt_conv_Cons nat_add_distrib)
    have "copyLoop lns stop i r = copyLoop lns stop (i + 1) (r @ [at lns i])"
      using True by (subst copyLoop.simps) simp
    also have "\<dots> = ((r @ [at lns i]) @ map (atN lns) [nat (i + 1)..<nat stop], max (i + 1) stop)"
      using "1.IH" [OF True] "1.prems" by simp
    finally show ?thesis using True "1.prems" u by (simp add: at_nat)
  next
    case False
    then show ?thesis by (subst copyLoop.simps) simp
  qed
qed

lemma hunkLoop_eq:
  "0 \<le> i \<Longrightarrow> hunkLoop lns ls i r = (r @ hunkOutput lns (nat i) ls, i + int (consumed ls))"
proof (induction ls arbitrary: i r)
  case Nil
  show ?case by simp
next
  case (Cons l ls)
  have s: "nat (i + 1) = Suc (nat i)" using Cons.prems by simp
  show ?case
  proof (cases "type l")
    case Context
    then show ?thesis using Cons.IH [of "i + 1"] Cons.prems s by (simp add: at_nat)
  next
    case Delete
    then show ?thesis using Cons.IH [of "i + 1"] Cons.prems s by simp
  next
    case Add
    then show ?thesis using Cons.IH [of i] Cons.prems by simp
  qed
qed

lemma map_atN_upt_length: "map (atN lns) [c..<length lns] = drop c lns"
  by (rule nth_equalityI) (auto simp: atN_def)

lemma applyHunk_eq:
  "applyHunk lns h =
     map (atN lns) [0..<start h] @ hunkOutput lns (start h) (lines h)
       @ drop (start h + consumed (lines h)) lns"
proof -
  have c1: "copyLoop lns (oldStart h) 0 [] = (map (atN lns) [0..<start h], int (start h))"
    by (simp add: copyLoop_eq start_def)
  have c2: "hunkLoop lns (lines h) (int (start h)) r
      = (r @ hunkOutput lns (start h) (lines h), int (start h + consumed (lines h)))" for r
    by (simp add: hunkLoop_eq)
  have c3: "fst (copyLoop lns (int (length lns)) (int n) r) = r @ drop n lns" for n r
    by (simp add: copyLoop_eq map_atN_upt_length)
  show ?thesis
    unfolding applyHunk_def by (simp only: c1 c2 c3 prod.case append_assoc)
qed

lemma applyLoop_foldr:
  "n \<le> length hs \<Longrightarrow> applyLoop hs n r = foldr (\<lambda>h r. applyHunk r h) (take n hs) r"
  by (induction n arbitrary: r) (simp_all add: take_Suc_conv_app_nth)

lemma hunkOutput_cong:
  "(\<And>i. s \<le> i \<Longrightarrow> i < s + consumed ls \<Longrightarrow> atN xs i = atN ys i) \<Longrightarrow>
     hunkOutput xs s ls = hunkOutput ys s ls"
proof (induction ls arbitrary: s)
  case Nil
  show ?case by simp
next
  case (Cons l ls)
  show ?case
  proof (cases "type l")
    case Context
    have "atN xs s = atN ys s" using Cons.prems [of s] Context by simp
    moreover have "hunkOutput xs (Suc s) ls = hunkOutput ys (Suc s) ls"
      using Cons.prems Context by (intro Cons.IH) simp_all
    ultimately show ?thesis using Context by simp
  next
    case Delete
    have "hunkOutput xs (Suc s) ls = hunkOutput ys (Suc s) ls"
      using Cons.prems Delete by (intro Cons.IH) simp_all
    then show ?thesis using Delete by simp
  next
    case Add
    have "hunkOutput xs s ls = hunkOutput ys s ls"
      using Cons.prems Add by (intro Cons.IH) simp_all
    then show ?thesis using Add by simp
  qed
qed

lemma atN_prefix:
  "i < c \<Longrightarrow> atN (map (atN lns) [0..<c] @ t) i = atN lns i"
  by (simp add: atN_def nth_append)

lemma upt_split: "c \<le> s \<Longrightarrow> [0..<s] = [0..<c] @ [c..<s]"
  using upt_add_eq_append [of 0 c "s - c"] by simp

lemma applyHunk_on_prefix:
  assumes "start h + consumed (lines h) = c'"
  shows "applyHunk (map (atN lns) [0..<c'] @ t) h =
     map (atN lns) [0..<start h] @ hunkOutput lns (start h) (lines h) @ t"
proof -
  let ?R = "map (atN lns) [0..<c'] @ t"
  have a: "map (atN ?R) [0..<start h] = map (atN lns) [0..<start h]"
    using assms by (intro map_cong refl atN_prefix) simp
  have b: "hunkOutput ?R (start h) (lines h) = hunkOutput lns (start h) (lines h)"
    using assms by (intro hunkOutput_cong atN_prefix) simp
  have c: "drop (start h + consumed (lines h)) ?R = t"
    using assms by simp
  show ?thesis by (simp only: applyHunk_eq a b c)
qed

lemma foldr_applyHunk_spliced:
  "ordered c hs \<Longrightarrow> hs \<noteq> [] \<Longrightarrow>
     foldr (\<lambda>h r. applyHunk r h) hs lns = map (atN lns) [0..<c] @ spliced lns c hs"
proof (induction hs arbitrary: c)
  case Nil
  then show ?case by simp
next
  case (Cons h hs)
  let ?c' = "start h + consumed (lines h)"
  from Cons.prems have le: "c \<le> start h" and ord: "ordered ?c' hs" by simp_all
  show ?case
  proof (cases "hs = []")
    case True
    then show ?thesis using le by (simp add: applyHunk_eq upt_split [OF le])
  next
    case False
    have "foldr (\<lambda>h r. applyHunk r h) (h # hs) lns
        = applyHunk (map (atN lns) [0..<?c'] @ spliced lns ?c' hs) h"
      using Cons.IH [OF ord False] by simp
    also have "\<dots> = map (atN lns) [0..<start h] @ hunkOutput lns (start h) (lines h)
        @ spliced lns ?c' hs"
      by (rule applyHunk_on_prefix) simp
    finally show ?thesis by (simp add: upt_split [OF le])
  qed
qed

lemma applyLoop_spliced:
  assumes "ordered 0 hs"
  shows "applyLoop hs (length hs) lns = spliced lns 0 hs"
proof (cases "hs = []")
  case True
  then show ?thesis by simp
next
  case False
  then show ?thesis
    using foldr_applyHunk_spliced [OF assms False, of lns] by (simp add: applyLoop_foldr)
qed

lemma length_hunkOutput: "length (hunkOutput lns i ls) = kept ls"
  by (induction ls arbitrary: i) (auto split: lineType.splits)

lemma spliced_decompose:
  "ordered c hs \<Longrightarrow> k < length hs \<Longrightarrow>
     \<exists>p s. spliced lns c hs = p @ hunkOutput lns (start (hs ! k)) (lines (hs ! k)) @ s
       \<and> int (length p) + int c = int (start (hs ! k)) + sum_list (map netChange (take k hs))"
proof (induction hs arbitrary: c k)
  case Nil
  then show ?case by simp
next
  case (Cons h hs)
  let ?c' = "start h + consumed (lines h)"
  from Cons.prems have le: "c \<le> start h" and ord: "ordered ?c' hs" by simp_all
  show ?case
  proof (cases k)
    case 0
    let ?p = "map (atN lns) [c..<start h]"
    have "spliced lns c (h # hs)
        = ?p @ hunkOutput lns (start ((h # hs) ! k)) (lines ((h # hs) ! k)) @ spliced lns ?c' hs"
      using 0 by simp
    moreover have "int (length ?p) + int c
        = int (start ((h # hs) ! k)) + sum_list (map netChange (take k (h # hs)))"
      using 0 le by simp
    ultimately show ?thesis by blast
  next
    case (Suc k')
    with Cons.prems have k': "k' < length hs" by simp
    from Cons.IH [OF ord k'] obtain p s where
      sp: "spliced lns ?c' hs = p @ hunkOutput lns (start (hs ! k')) (lines (hs ! k')) @ s"
      and len: "int (length p) + int ?c'
          = int (start (hs ! k')) + sum_list (map netChange (take k' hs))"
      by blast
    let ?p = "map (atN lns) [c..<start h] @ hunkOutput lns (start h) (lines h) @ p"
    have "spliced lns c (h # hs)
        = ?p @ hunkOutput lns (start ((h # hs) ! k)) (lines ((h # hs) ! k)) @ s"
      using sp Suc by simp
    moreover have "int (length ?p) + int c
        = int (start ((h # hs) ! k)) + sum_list (map netChange (take k (h # hs)))"
      using len le Suc by (simp add: length_hunkOutput netChange_def)
    ultimately show ?thesis by blast
  qed
qed

lemma spliced_edit_at:
  assumes "ordered 0 hs" "k < length hs"
  shows "take (kept (lines (hs ! k))) (drop (editPosition hs k) (spliced lns 0 hs))
           = hunkOutput lns (start (hs ! k)) (lines (hs ! k))"
proof -
  from spliced_decompose [OF assms, of lns] obtain p s where
    sp: "spliced lns 0 hs = p @ hunkOutput lns (start (hs ! k)) (lines (hs ! k)) @ s"
    and len: "int (length p) = int (start (hs ! k)) + sum_list (map netChange (take k hs))"
    by auto
  have "editPosition hs k = length p"
    unfolding editPosition_def using len by simp
  then show ?thesis by (simp add: sp length_hunkOutput)
qed

text \<open>
  C1. For hunks listed in non-decreasing order that do not overlap, the loop that applies
  them from the last to the first, each to the lines the one before left, produces the
  content in which every hunk's edit stands in place of the lines the hunk covers and all
  other lines are the original's. Hunk \<open>k\<close>'s edit begins at its recorded offset moved by
  the net line count of the hunks before it, whatever the hunks after it add or delete.
  When such a diff parses and validates, \<open>applyUnifiedDiff\<close> returns that content joined.
\<close>

theorem reverse_application_correct:
  assumes "ordered 0 hunks"
  shows "applyLoop hunks (length hunks) lns = spliced lns 0 hunks
       \<and> (\<forall>k < length hunks.
            take (kept (lines (hunks ! k)))
                 (drop (editPosition hunks k) (applyLoop hunks (length hunks) lns))
              = hunkOutput lns (start (hunks ! k)) (lines (hunks ! k)))
       \<and> (parseUnifiedDiffHunks (diffLinesOf unifiedDiff) = Inr hunks
            \<and> validateAll (originalLinesOf originalContent) strict hunks = Inr ()
          \<longrightarrow> applyUnifiedDiff originalContent unifiedDiff
                = Inr (joinArray (spliced (map Some (originalLinesOf originalContent)) 0 hunks)))"
proof -
  have a: "applyLoop hunks (length hunks) xs = spliced xs 0 hunks" for xs
    by (rule applyLoop_spliced [OF assms])
  have b: "\<forall>k < length hunks.
            take (kept (lines (hunks ! k)))
                 (drop (editPosition hunks k) (applyLoop hunks (length hunks) lns))
              = hunkOutput lns (start (hunks ! k)) (lines (hunks ! k))"
    using spliced_edit_at [OF assms] by (simp add: a)
  have c: "parseUnifiedDiffHunks (diffLinesOf unifiedDiff) = Inr hunks
            \<and> validateAll (originalLinesOf originalContent) strict hunks = Inr ()
          \<longrightarrow> applyUnifiedDiff originalContent unifiedDiff
                = Inr (joinArray (spliced (map Some (originalLinesOf originalContent)) 0 hunks))"
    by (simp add: applyUnifiedDiff_def a)
  show ?thesis using a b c by blast
qed

theorem reverse_application_correct_witness:
  "ordered 0
     [\<lparr> oldStart = 0, oldCount = 2, newStart = 0, newCount = 3,
        lines = [\<lparr> type = Delete, content = ''line1'' \<rparr>, \<lparr> type = Add, content = ''new1'' \<rparr>,
                 \<lparr> type = Add, content = ''new1b'' \<rparr>, \<lparr> type = Context, content = ''line2'' \<rparr>] \<rparr>,
      \<lparr> oldStart = 3, oldCount = 2, newStart = 4, newCount = 1,
        lines = [\<lparr> type = Context, content = ''line4'' \<rparr>, \<lparr> type = Delete, content = ''line5'' \<rparr>] \<rparr>]
   \<and> applyLoop
     [\<lparr> oldStart = 0, oldCount = 2, newStart = 0, newCount = 3,
        lines = [\<lparr> type = Delete, content = ''line1'' \<rparr>, \<lparr> type = Add, content = ''new1'' \<rparr>,
                 \<lparr> type = Add, content = ''new1b'' \<rparr>, \<lparr> type = Context, content = ''line2'' \<rparr>] \<rparr>,
      \<lparr> oldStart = 3, oldCount = 2, newStart = 4, newCount = 1,
        lines = [\<lparr> type = Context, content = ''line4'' \<rparr>, \<lparr> type = Delete, content = ''line5'' \<rparr>] \<rparr>]
     2 [Some ''line1'', Some ''line2'', Some ''line3'', Some ''line4'', Some ''line5'']
     = [Some ''new1'', Some ''new1b'', Some ''line2'', Some ''line3'', Some ''line4'']
   \<and> applyUnifiedDiff ''line1\<newline>line2\<newline>line3\<newline>line4\<newline>line5''
        ''@@ -1,2 +1,3 @@\<newline>-line1\<newline>+new1\<newline>+new1b\<newline> line2\<newline>@@ -4,2 +5,1 @@\<newline> line4\<newline>-line5''
     = Inr ''new1\<newline>new1b\<newline>line2\<newline>line3\<newline>line4''"
  (is "ordered 0 ?hs \<and> applyLoop ?hs 2 ?lns = ?out \<and> applyUnifiedDiff ?c ?d = ?res")
proof -
  have ord: "ordered 0 ?hs" by (simp add: start_def)
  have p: "parseUnifiedDiffHunks (diffLinesOf ?d) = Inr ?hs" by code_simp
  have v: "validateAll (originalLinesOf ?c) strict ?hs = Inr ()" by code_simp
  have sp: "spliced ?lns 0 ?hs = ?out" by code_simp
  have ol: "map Some (originalLinesOf ?c) = ?lns" by code_simp
  have j: "joinArray ?out = ''new1\<newline>new1b\<newline>line2\<newline>line3\<newline>line4''"
    by (simp add: joinArray_def)
  from reverse_application_correct [OF ord, of ?lns ?d ?c] p v
  have a: "applyLoop ?hs (length ?hs) ?lns = spliced ?lns 0 ?hs"
    and b: "applyUnifiedDiff ?c ?d = Inr (joinArray (spliced (map Some (originalLinesOf ?c)) 0 ?hs))"
    by blast+
  have len: "length ?hs = 2" by simp
  have a': "applyLoop ?hs 2 ?lns = ?out" using a unfolding len sp .
  have b': "applyUnifiedDiff ?c ?d = ?res" using b unfolding ol sp j .
  show ?thesis using ord a' b' by (intro conjI)
qed

subsection \<open>Line endings\<close>

lemma replaceCRLF_Cons:
  "c \<noteq> CR \<or> xs = [] \<or> hd xs \<noteq> LF \<Longrightarrow> replaceCRLF (c # xs) = c # replaceCRLF xs"
  by (cases xs) auto

lemma hasCRLF_tl: "\<not> hasCRLF (c # cs) \<Longrightarrow> \<not> hasCRLF cs"
  by (cases cs) auto

lemma hd_withCRLF: "cs \<noteq> [] \<Longrightarrow> hd cs \<noteq> LF \<Longrightarrow> hd (withCRLF bs cs) = hd cs"
  by (cases cs) auto

lemma withCRLF_Nil_iff: "withCRLF bs cs = [] \<longleftrightarrow> cs = []"
  by (cases cs) (auto split: list.splits)

lemma replaceCRLF_withCRLF: "\<not> hasCRLF s \<Longrightarrow> replaceCRLF (withCRLF bs s) = s"
proof (induction s arbitrary: bs)
  case Nil
  show ?case by simp
next
  case (Cons c cs)
  have ih: "replaceCRLF (withCRLF bs' cs) = cs" for bs'
    using Cons.IH hasCRLF_tl [OF Cons.prems] by simp
  show ?case
  proof (cases "c = LF")
    case True
    then show ?thesis
      by (cases bs) (simp_all add: ih replaceCRLF_Cons)
  next
    case False
    have "cs = [] \<or> hd cs \<noteq> LF \<or> c \<noteq> CR"
      using Cons.prems by (cases cs) auto
    then have "c \<noteq> CR \<or> withCRLF bs cs = [] \<or> hd (withCRLF bs cs) \<noteq> LF"
      by (cases "cs = []") (auto simp: hd_withCRLF)
    then have "replaceCRLF (c # withCRLF bs cs) = c # replaceCRLF (withCRLF bs cs)"
      by (rule replaceCRLF_Cons)
    then show ?thesis using False by (simp add: ih)
  qed
qed

lemma withCRLF_none: "withCRLF [] s = s"
  by (induction s) simp_all

lemma replaceCRLF_id: "\<not> hasCRLF s \<Longrightarrow> replaceCRLF s = s"
  using replaceCRLF_withCRLF [of s "[]"] by (simp add: withCRLF_none)

lemma applyUnifiedDiff_cong:
  "replaceCRLF c = replaceCRLF c' \<Longrightarrow> replaceCRLF d = replaceCRLF d' \<Longrightarrow>
     applyUnifiedDiff c d = applyUnifiedDiff c' d'"
  by (simp add: applyUnifiedDiff_def originalLinesOf_def diffLinesOf_def)

text \<open>
  C5. For every original content and diff text with LF-only line endings, replacing any of
  the line endings by CR LF, in the original, in the diff or in both, leaves the outcome of
  \<open>applyUnifiedDiff\<close> as it is: the same content on success, the same error on failure.
\<close>

theorem crlf_invariance:
  assumes "\<not> hasCRLF originalContent" and "\<not> hasCRLF unifiedDiff"
  shows "applyUnifiedDiff (withCRLF bs originalContent) (withCRLF bs' unifiedDiff)
           = applyUnifiedDiff originalContent unifiedDiff"
  using assms by (intro applyUnifiedDiff_cong) (simp_all add: replaceCRLF_withCRLF replaceCRLF_id)

theorem crlf_invariance_witness:
  "\<not> hasCRLF ''line1\<newline>line2\<newline>line3''
   \<and> \<not> hasCRLF ''@@ -1,3 +1,3 @@\<newline> line1\<newline>-line2\<newline>+modified2\<newline> line3''
   \<and> withCRLF [True, True] ''line1\<newline>line2\<newline>line3''
       = ''line1'' @ [CR, LF] @ ''line2'' @ [CR, LF] @ ''line3''
   \<and> withCRLF [True, False, True] ''@@ -1,3 +1,3 @@\<newline> line1\<newline>-line2\<newline>+modified2\<newline> line3''
       = ''@@ -1,3 +1,3 @@'' @ [CR, LF] @ '' line1\<newline>-line2'' @ [CR, LF] @ ''+modified2\<newline> line3''
   \<and> applyUnifiedDiff (''line1'' @ [CR, LF] @ ''line2'' @ [CR, LF] @ ''line3'')
        (''@@ -1,3 +1,3 @@'' @ [CR, LF] @ '' line1\<newline>-line2'' @ [CR, LF] @ ''+modified2\<newline> line3'')
       = applyUnifiedDiff ''line1\<newline>line2\<newline>line3''
           ''@@ -1,3 +1,3 @@\<newline> line1\<newline>-line2\<newline>+modified2\<newline> line3''
   \<and> applyUnifiedDiff ''line1\<newline>line2\<newline>line3''
           ''@@ -1,3 +1,3 @@\<newline> line1\<newline>-line2\<newline>+modified2\<newline> line3''
       = Inr ''line1\<newline>modified2\<newline>line3''"
  (is "\<not> hasCRLF ?c \<and> \<not> hasCRLF ?d \<and> withCRLF ?bs ?c = ?c' \<and> withCRLF ?bs' ?d = ?d' \<and> _ \<and> _")
proof -
  have h1: "\<not> hasCRLF ?c" by simp
  have h2: "\<not> hasCRLF ?d" by simp
  have w1: "withCRLF ?bs ?c = ?c'" by simp
  have w2: "withCRLF ?bs' ?d = ?d'" by simp
  have r: "applyUnifiedDiff ?c ?d = Inr ''line1\<newline>modified2\<newline>line3''" by code_simp
  have "applyUnifiedDiff ?c' ?d' = applyUnifiedDiff ?c ?d"
    using crlf_invariance [OF h1 h2, of ?bs ?bs'] unfolding w1 w2 .
  then show ?thesis using h1 h2 w1 w2 r by (intro conjI)
qed

subsection \<open>Empty content and full deletion\<close>

lemma no_CR_no_CRLF: "CR \<notin> set s \<Longrightarrow> \<not> hasCRLF s"
  by (induction s rule: hasCRLF.induct) auto

lemma splitLF_plain: "LF \<notin> set l \<Longrightarrow> splitLF l = [l]"
  by (induction l) auto

lemma splitLF_append: "LF \<notin> set l \<Longrightarrow> splitLF (l @ LF # rest) = l # splitLF rest"
  by (induction l) auto

lemma applyLoop_single: "applyLoop [h] (Suc 0) lns = applyHunk lns h"
  by simp

lemma add_hunk_on_empty:
  "applyHunk [] \<lparr> oldStart = - 1, oldCount = oc, newStart = ns, newCount = nc,
       lines = map (\<lambda>l. \<lparr> type = Add, content = l \<rparr>) ls \<rparr> = map Some ls"
proof -
  have "hunkOutput [] 0 (map (\<lambda>l. \<lparr> type = Add, content = l \<rparr>) ls) = map Some ls"
    by (induction ls) simp_all
  moreover have "consumed (map (\<lambda>l. \<lparr> type = Add, content = l \<rparr>) ls) = 0"
    by (induction ls) simp_all
  ultimately show ?thesis by (simp add: applyHunk_eq start_def)
qed

lemma validateLoop_adds:
  "validateLoop L mode i (map (\<lambda>l. \<lparr> type = Add, content = l \<rparr>) ls) = Inr True"
  by (induction ls) simp_all

lemma validateLoop_delete_all:
  "validateLoop (pre @ ls) strict (int (length pre))
     (map (\<lambda>l. \<lparr> type = Delete, content = l \<rparr>) ls) = Inr True"
proof (induction ls arbitrary: pre)
  case Nil
  show ?case by simp
next
  case (Cons l ls)
  have "validateLoop ((pre @ [l]) @ ls) strict (int (length (pre @ [l])))
     (map (\<lambda>l. \<lparr> type = Delete, content = l \<rparr>) ls) = Inr True"
    by (rule Cons.IH)
  then show ?case by (simp add: at_def nth_append add.commute)
qed

lemma delete_hunk_on_all:
  "applyHunk (map Some ls) \<lparr> oldStart = 0, oldCount = oc, newStart = ns, newCount = nc,
       lines = map (\<lambda>l. \<lparr> type = Delete, content = l \<rparr>) ls \<rparr> = []"
proof -
  have "hunkOutput xs i (map (\<lambda>l. \<lparr> type = Delete, content = l \<rparr>) ls) = []" for xs i
    by (induction ls arbitrary: i) simp_all
  moreover have "consumed (map (\<lambda>l. \<lparr> type = Delete, content = l \<rparr>) ls) = length ls"
    by (induction ls) simp_all
  ultimately show ?thesis by (simp add: applyHunk_eq start_def)
qed

lemma header_add3: "matchHeader ''@@ -0,0 +1,3 @@'' = Some (''0'', Some ''0'', ''1'', Some ''3'')"
  by code_simp

lemma header_del3: "matchHeader ''@@ -1,3 +0,0 @@'' = Some (''1'', Some ''3'', ''0'', Some ''0'')"
  by code_simp

lemma parse_add3:
  "parseUnifiedDiffHunks [''@@ -0,0 +1,3 @@'', CHR ''+'' # a, CHR ''+'' # b, CHR ''+'' # c]
     = Inr [\<lparr> oldStart = - 1, oldCount = 0, newStart = 0, newCount = 3,
              lines = map (\<lambda>l. \<lparr> type = Add, content = l \<rparr>) [a, b, c] \<rparr>]"
  by (simp add: parseUnifiedDiffHunks_def header_add3 startsWith_def flush_def newHunk_def
        pushLine_def lineTypeOf_def parseInt_def digitValue_def del: matchHeader.simps)

lemma parse_del3:
  "parseUnifiedDiffHunks [''@@ -1,3 +0,0 @@'', CHR ''-'' # a, CHR ''-'' # b, CHR ''-'' # c]
     = Inr [\<lparr> oldStart = 0, oldCount = 3, newStart = - 1, newCount = 0,
              lines = map (\<lambda>l. \<lparr> type = Delete, content = l \<rparr>) [a, b, c] \<rparr>]"
  by (simp add: parseUnifiedDiffHunks_def header_del3 startsWith_def flush_def newHunk_def
        pushLine_def lineTypeOf_def parseInt_def digitValue_def del: matchHeader.simps)

lemma diffLinesOf_3:
  assumes that: "m \<noteq> LF" "m \<noteq> CR"
    and "plainLine a" "plainLine b" "plainLine c" "plainLine h"
  shows "diffLinesOf (h @ LF # m # a @ LF # m # b @ LF # m # c) = [h, m # a, m # b, m # c]"
proof -
  let ?t = "h @ LF # m # a @ LF # m # b @ LF # m # c"
  have "CR \<notin> set ?t" using assms that by (auto simp: plainLine_def)
  then have "replaceCRLF ?t = ?t" by (intro replaceCRLF_id no_CR_no_CRLF)
  moreover have "splitLF ?t = [h, m # a, m # b, m # c]"
  proof -
    have 1: "splitLF (m # c) = [m # c]"
      using assms that by (intro splitLF_plain) (simp add: plainLine_def)
    have 2: "splitLF ((m # b) @ LF # m # c) = (m # b) # splitLF (m # c)"
      using assms that by (intro splitLF_append) (simp add: plainLine_def)
    have 3: "splitLF ((m # a) @ LF # (m # b) @ LF # m # c)
        = (m # a) # splitLF ((m # b) @ LF # m # c)"
      using assms that by (intro splitLF_append) (simp add: plainLine_def)
    have 4: "splitLF (h @ LF # (m # a) @ LF # (m # b) @ LF # m # c)
        = h # splitLF ((m # a) @ LF # (m # b) @ LF # m # c)"
      using assms by (intro splitLF_append) (simp add: plainLine_def)
    show ?thesis using 1 2 3 4 by simp
  qed
  ultimately show ?thesis by (simp add: diffLinesOf_def)
qed

lemma originalLinesOf_3:
  assumes "plainLine a" "plainLine b" "plainLine c"
  shows "originalLinesOf (a @ LF # b @ LF # c) = [a, b, c]"
proof -
  let ?t = "a @ LF # b @ LF # c"
  have "CR \<notin> set ?t" using assms by (auto simp: plainLine_def)
  then have r: "replaceCRLF ?t = ?t" by (intro replaceCRLF_id no_CR_no_CRLF)
  have 1: "splitLF c = [c]" using assms by (intro splitLF_plain) (simp add: plainLine_def)
  have 2: "splitLF (b @ LF # c) = b # splitLF c"
    using assms by (intro splitLF_append) (simp add: plainLine_def)
  have 3: "splitLF (a @ LF # b @ LF # c) = a # splitLF (b @ LF # c)"
    using assms by (intro splitLF_append) (simp add: plainLine_def)
  show ?thesis by (simp add: originalLinesOf_def r 1 2 3)
qed

text \<open>
  C8. The empty original content splits into zero lines. Applied to it, the diff with the
  header \<open>@@ -0,0 +1,3 @@\<close> and three add lines returns exactly the three lines joined
  by LF; applied to three lines, the diff with the header \<open>@@ -1,3 +0,0 @@\<close> that deletes
  each of them returns the empty string. For any number of lines: the hunk of a header
  with old start 0 that only adds turns the empty content into its lines, and the hunk at
  the top that deletes every line of a content validates and leaves no line.
\<close>

theorem empty_to_content_and_back:
  "originalLinesOf '''' = []
   \<and> (plainLine a \<and> plainLine b \<and> plainLine c \<longrightarrow>
        applyUnifiedDiff '''' (''@@ -0,0 +1,3 @@'' @ LF # CHR ''+'' # a @ LF # CHR ''+'' # b @ LF # CHR ''+'' # c)
          = Inr (a @ LF # b @ LF # c))
   \<and> (plainLine a \<and> plainLine b \<and> plainLine c \<longrightarrow>
        applyUnifiedDiff (a @ LF # b @ LF # c)
            (''@@ -1,3 +0,0 @@'' @ LF # CHR ''-'' # a @ LF # CHR ''-'' # b @ LF # CHR ''-'' # c)
          = Inr '''')
   \<and> applyHunk [] \<lparr> oldStart = - 1, oldCount = 0, newStart = 0, newCount = int (length ls),
          lines = map (\<lambda>l. \<lparr> type = Add, content = l \<rparr>) ls \<rparr> = map Some ls
   \<and> validateHunk ls \<lparr> oldStart = 0, oldCount = int (length ls), newStart = - 1, newCount = 0,
          lines = map (\<lambda>l. \<lparr> type = Delete, content = l \<rparr>) ls \<rparr> strict = Inr True
   \<and> applyHunk (map Some ls) \<lparr> oldStart = 0, oldCount = int (length ls), newStart = - 1,
          newCount = 0, lines = map (\<lambda>l. \<lparr> type = Delete, content = l \<rparr>) ls \<rparr> = []"
proof -
  have e: "originalLinesOf '''' = []" by (simp add: originalLinesOf_def)
  have hp: "plainLine ''@@ -0,0 +1,3 @@''" "plainLine ''@@ -1,3 +0,0 @@''"
    by (simp_all add: plainLine_def)
  have i: "applyUnifiedDiff '''' (''@@ -0,0 +1,3 @@'' @ LF # CHR ''+'' # a @ LF # CHR ''+'' # b @ LF # CHR ''+'' # c)
          = Inr (a @ LF # b @ LF # c)"
    if p: "plainLine a" "plainLine b" "plainLine c"
  proof -
    have d: "diffLinesOf (''@@ -0,0 +1,3 @@'' @ LF # CHR ''+'' # a @ LF # CHR ''+'' # b @ LF # CHR ''+'' # c)
        = [''@@ -0,0 +1,3 @@'', CHR ''+'' # a, CHR ''+'' # b, CHR ''+'' # c]"
      by (rule diffLinesOf_3 [OF _ _ p hp(1)]) simp_all
    have v: "validateAll [] strict [\<lparr> oldStart = - 1, oldCount = 0, newStart = 0, newCount = 3,
              lines = map (\<lambda>l. \<lparr> type = Add, content = l \<rparr>) [a, b, c] \<rparr>] = Inr ()"
      by (simp add: validateHunk_def validateLoop_adds del: list.map)
    have j: "joinArray (map Some [a, b, c]) = a @ LF # b @ LF # c"
      by (simp add: joinArray_def)
    have ap: "applyLoop [\<lparr> oldStart = - 1, oldCount = 0, newStart = 0, newCount = 3,
              lines = map (\<lambda>l. \<lparr> type = Add, content = l \<rparr>) [a, b, c] \<rparr>]
          (length [\<lparr> oldStart = - 1, oldCount = 0, newStart = 0, newCount = 3,
              lines = map (\<lambda>l. \<lparr> type = Add, content = l \<rparr>) [a, b, c] \<rparr>]) (map Some [])
        = map Some [a, b, c]"
      using add_hunk_on_empty [of 0 0 3 "[a, b, c]"] by simp
    show ?thesis
      unfolding applyUnifiedDiff_def Let_def d e parse_add3
      by (simp only: v ap j sum.case)
  qed
  have ii: "applyUnifiedDiff (a @ LF # b @ LF # c)
            (''@@ -1,3 +0,0 @@'' @ LF # CHR ''-'' # a @ LF # CHR ''-'' # b @ LF # CHR ''-'' # c)
          = Inr ''''"
    if p: "plainLine a" "plainLine b" "plainLine c"
  proof -
    have d: "diffLinesOf (''@@ -1,3 +0,0 @@'' @ LF # CHR ''-'' # a @ LF # CHR ''-'' # b @ LF # CHR ''-'' # c)
        = [''@@ -1,3 +0,0 @@'', CHR ''-'' # a, CHR ''-'' # b, CHR ''-'' # c]"
      by (rule diffLinesOf_3 [OF _ _ p hp(2)]) simp_all
    have v: "validateHunk [a, b, c] \<lparr> oldStart = 0, oldCount = 3, newStart = - 1, newCount = 0,
              lines = map (\<lambda>l. \<lparr> type = Delete, content = l \<rparr>) [a, b, c] \<rparr> strict = Inr True"
      using validateLoop_delete_all [of "[]" "[a, b, c]"] by (simp add: validateHunk_def)
    have ap: "applyLoop [\<lparr> oldStart = 0, oldCount = 3, newStart = - 1,
          newCount = 0, lines = map (\<lambda>l. \<lparr> type = Delete, content = l \<rparr>) [a, b, c] \<rparr>]
          (length [\<lparr> oldStart = 0, oldCount = 3, newStart = - 1,
          newCount = 0, lines = map (\<lambda>l. \<lparr> type = Delete, content = l \<rparr>) [a, b, c] \<rparr>])
          (map Some [a, b, c]) = []"
      using delete_hunk_on_all [of "[a, b, c]" 3 "- 1" 0] by simp
    have j: "joinArray [] = []" by (simp add: joinArray_def)
    have va: "validateAll [a, b, c] strict [\<lparr> oldStart = 0, oldCount = 3, newStart = - 1,
          newCount = 0, lines = map (\<lambda>l. \<lparr> type = Delete, content = l \<rparr>) [a, b, c] \<rparr>] = Inr ()"
      by (simp add: v del: list.map)
    show ?thesis
      unfolding applyUnifiedDiff_def Let_def d originalLinesOf_3 [OF p] parse_del3
      by (simp only: va ap j sum.case)
  qed
  have iii: "validateHunk ls \<lparr> oldStart = 0, oldCount = int (length ls), newStart = - 1, newCount = 0,
          lines = map (\<lambda>l. \<lparr> type = Delete, content = l \<rparr>) ls \<rparr> strict = Inr True"
    using validateLoop_delete_all [of "[]" ls] by (simp add: validateHunk_def)
  show ?thesis using e i ii iii add_hunk_on_empty delete_hunk_on_all by blast
qed

theorem empty_to_content_and_back_witness:
  "plainLine ''line1'' \<and> plainLine ''line2'' \<and> plainLine ''line3''
   \<and> applyUnifiedDiff '''' ''@@ -0,0 +1,3 @@\<newline>+line1\<newline>+line2\<newline>+line3''
       = Inr ''line1\<newline>line2\<newline>line3''
   \<and> applyUnifiedDiff ''line1\<newline>line2\<newline>line3''
         ''@@ -1,3 +0,0 @@\<newline>-line1\<newline>-line2\<newline>-line3''
       = Inr ''''"
proof -
  have p: "plainLine ''line1''" "plainLine ''line2''" "plainLine ''line3''"
    by (simp_all add: plainLine_def)
  from empty_to_content_and_back [of "''line1''" "''line2''" "''line3''" "[]"] p
  have "applyUnifiedDiff '''' (''@@ -0,0 +1,3 @@'' @ LF # CHR ''+'' # ''line1'' @ LF # CHR ''+'' # ''line2'' @ LF # CHR ''+'' # ''line3'')
          = Inr (''line1'' @ LF # ''line2'' @ LF # ''line3'')"
    and "applyUnifiedDiff (''line1'' @ LF # ''line2'' @ LF # ''line3'')
            (''@@ -1,3 +0,0 @@'' @ LF # CHR ''-'' # ''line1'' @ LF # CHR ''-'' # ''line2'' @ LF # CHR ''-'' # ''line3'')
          = Inr ''''"
    by blast+
  then show ?thesis using p by simp
qed

subsection \<open>White space in context lines\<close>

lemma validateLoop_no_consumed:
  "consumed ls = 0 \<Longrightarrow> validateLoop L mode i ls = Inr True"
  by (induction ls) (auto split: if_splits)

lemma validateLoop_trimMatches:
  "trimMatches L i ls \<Longrightarrow> validateLoop L normalized (int i) ls = Inr True"
proof (induction ls arbitrary: i)
  case Nil
  show ?case by simp
next
  case (Cons l ls)
  show ?case
  proof (cases "type l = Add")
    case True
    with Cons show ?thesis by simp
  next
    case False
    with Cons.prems have b: "i < length L" and t: "trim (L ! i) = trim (content l)"
      and r: "trimMatches L (Suc i) ls" by simp_all
    have "validateLoop L normalized (int (Suc i)) ls = Inr True" by (rule Cons.IH [OF r])
    moreover have "type l = Context \<or> type l = Delete" using False by (cases "type l") auto
    moreover have "int (Suc i) = int i + 1" by simp
    ultimately show ?thesis using b t by (simp add: at_def del: of_nat_Suc)
  qed
qed

lemma whitespaceOnly_passes: "whitespaceOnly L h \<Longrightarrow> passes L normalized h"
proof -
  assume w: "whitespaceOnly L h"
  show ?thesis
  proof (cases "consumed (lines h) = 0")
    case True
    then show ?thesis by (simp add: passes_def validateHunk_def validateLoop_no_consumed)
  next
    case False
    with w have "0 \<le> oldStart h" and "trimMatches L (start h) (lines h)"
      by (simp_all add: whitespaceOnly_def)
    then show ?thesis
      using validateLoop_trimMatches [of L "start h" "lines h"]
      by (simp add: passes_def validateHunk_def start_def)
  qed
qed

lemma trimMatches_line:
  "trimMatches L i ls \<Longrightarrow> j < length ls \<Longrightarrow> type (ls ! j) \<noteq> Add \<Longrightarrow>
     i + consumed (take j ls) < length L
     \<and> trim (L ! (i + consumed (take j ls))) = trim (content (ls ! j))"
proof (induction ls arbitrary: i j)
  case Nil
  then show ?case by simp
next
  case (Cons l ls)
  show ?case
  proof (cases j)
    case 0
    with Cons.prems show ?thesis by simp
  next
    case (Suc j')
    show ?thesis
    proof (cases "type l = Add")
      case True
      with Cons.prems Suc have "trimMatches L i ls" "j' < length ls" "type (ls ! j') \<noteq> Add"
        by simp_all
      from Cons.IH [OF this] True Suc show ?thesis by simp
    next
      case False
      with Cons.prems Suc have "trimMatches L (Suc i) ls" "j' < length ls" "type (ls ! j') \<noteq> Add"
        by simp_all
      from Cons.IH [OF this] False Suc show ?thesis by simp
    qed
  qed
qed

lemma kept_take_less:
  "j < length ls \<Longrightarrow> type (ls ! j) \<noteq> Delete \<Longrightarrow> kept (take j ls) < kept ls"
proof (induction ls arbitrary: j)
  case Nil
  then show ?case by simp
next
  case (Cons l ls)
  show ?case
  proof (cases j)
    case 0
    with Cons.prems show ?thesis by simp
  next
    case (Suc j')
    with Cons.prems have "j' < length ls" "type (ls ! j') \<noteq> Delete" by simp_all
    from Cons.IH [OF this] Suc show ?thesis by simp
  qed
qed

lemma hunkOutput_context_at:
  "j < length ls \<Longrightarrow> type (ls ! j) = Context \<Longrightarrow>
     hunkOutput lns i ls ! kept (take j ls) = atN lns (i + consumed (take j ls))"
proof (induction ls arbitrary: i j)
  case Nil
  then show ?case by simp
next
  case (Cons l ls)
  show ?case
  proof (cases j)
    case 0
    with Cons.prems show ?thesis by simp
  next
    case (Suc j')
    with Cons.prems have p: "j' < length ls" "type (ls ! j') = Context" by simp_all
    show ?thesis
      using Cons.IH [OF p, of i] Cons.IH [OF p, of "Suc i"] Suc
      by (cases "type l") simp_all
  qed
qed

lemma splitLF_no_LF: "l \<in> set (splitLF s) \<Longrightarrow> LF \<notin> set l"
proof (induction s arbitrary: l)
  case Nil
  then show ?case by simp
next
  case (Cons c cs)
  obtain x xs where sp: "splitLF cs = x # xs"
    using splitLF_not_Nil [of cs] by (cases "splitLF cs") auto
  show ?case
  proof (cases "c = LF")
    case True
    with Cons.prems have "l = [] \<or> l \<in> set (splitLF cs)" by simp
    then show ?thesis using Cons.IH by auto
  next
    case False
    with Cons.prems sp have "l = c # x \<or> l \<in> set xs" by simp
    moreover have "LF \<notin> set x" using Cons.IH [of x] sp by simp
    moreover have "l \<in> set xs \<Longrightarrow> LF \<notin> set l" using Cons.IH [of l] sp by simp
    ultimately show ?thesis using False by auto
  qed
qed

lemma splitLF_joinLF:
  "ls \<noteq> [] \<Longrightarrow> \<forall>l \<in> set ls. LF \<notin> set l \<Longrightarrow> splitLF (joinLF ls) = ls"
proof (induction ls)
  case Nil
  then show ?case by simp
next
  case (Cons l ls)
  show ?case
  proof (cases "ls = []")
    case True
    with Cons.prems show ?thesis by (simp add: splitLF_plain)
  next
    case False
    with Cons have "splitLF (joinLF ls) = ls" by simp
    with False Cons.prems show ?thesis by (simp add: joinLF_Cons splitLF_append)
  qed
qed

lemma originalLinesOf_no_LF: "l \<in> set (originalLinesOf s) \<Longrightarrow> LF \<notin> set l"
  using splitLF_no_LF by (auto simp: originalLinesOf_def Let_def split: if_splits)

lemma diffLinesOf_no_LF: "l \<in> set (diffLinesOf s) \<Longrightarrow> LF \<notin> set l"
  using splitLF_no_LF by (auto simp: diffLinesOf_def)

lemma parseLoop_contents:
  assumes "parseLoop ls hs cur = Inr res"
    and "\<forall>l \<in> set ls. P (tl l)"
    and "\<forall>h \<in> set hs. \<forall>x \<in> set (lines h). P (content x)"
    and "\<forall>h. cur = Some h \<longrightarrow> (\<forall>x \<in> set (lines h). P (content x))"
  shows "\<forall>h \<in> set res. \<forall>x \<in> set (lines h). P (content x)"
  using assms
proof (induction ls arbitrary: hs cur)
  case Nil
  then show ?case by (cases cur) (auto simp: flush_def)
next
  case (Cons line rest)
  have tl: "\<forall>l \<in> set rest. P (tl l)" and here: "P (tl line)" using Cons.prems(2) by simp_all
  have fl: "\<forall>h \<in> set (flush hs cur). \<forall>x \<in> set (lines h). P (content x)"
    using Cons.prems(3,4) by (cases cur) (auto simp: flush_def)
  show ?case
  proof (cases "startsWith line ''@@''")
    case True
    with Cons.prems(1) obtain m where m: "matchHeader line = Some m"
      and r: "parseLoop rest (flush hs cur) (Some (newHunk m)) = Inr res"
      by (auto split: option.splits)
    have "lines (newHunk m) = []" by (cases m) (simp add: newHunk_def)
    then show ?thesis using Cons.IH [OF r tl fl] by simp
  next
    case False
    show ?thesis
    proof (cases "cur \<noteq> None \<and>
          (startsWith line '' '' \<or> startsWith line ''-'' \<or> startsWith line ''+'')")
      case True
      then obtain h where h: "cur = Some h" by auto
      with True False Cons.prems(1)
      have r: "parseLoop rest hs (Some (pushLine h line)) = Inr res" by simp
      have "\<forall>x \<in> set (lines (pushLine h line)). P (content x)"
        using Cons.prems(4) h here by (auto simp: pushLine_def)
      then show ?thesis using Cons.IH [OF r tl Cons.prems(3)] by simp
    next
      case F2: False
      with False Cons.prems(1) have r: "parseLoop rest hs cur = Inr res" by auto
      show ?thesis using Cons.IH [OF r tl Cons.prems(3) Cons.prems(4)] .
    qed
  qed
qed

lemma parse_no_LF:
  assumes "parseUnifiedDiffHunks (diffLinesOf d) = Inr hs" "h \<in> set hs" "x \<in> set (lines h)"
  shows "LF \<notin> set (content x)"
proof -
  have "LF \<notin> set (tl l)" if "l \<in> set (diffLinesOf d)" for l
    using diffLinesOf_no_LF [OF that] by (cases l) auto
  then have "\<forall>l \<in> set (diffLinesOf d). LF \<notin> set (tl l)" by blast
  from parseLoop_contents [where P = "\<lambda>t. LF \<notin> set t", OF _ this, of "[]" None hs] assms
  show ?thesis by (simp add: parseUnifiedDiffHunks_def)
qed

lemma atN_map_Some_render:
  "\<forall>l \<in> set L. P l \<Longrightarrow> P [] \<Longrightarrow> P (render (atN (map Some L) i))"
  by (simp add: atN_def)

lemma hunkOutput_render:
  assumes "\<forall>l \<in> set L. P l" "P []" "\<forall>x \<in> set ls. P (content x)"
  shows "\<forall>y \<in> set (hunkOutput (map Some L) i ls). P (render y)"
  using assms(3)
proof (induction ls arbitrary: i)
  case Nil
  show ?case by simp
next
  case (Cons l ls)
  then show ?case
    using atN_map_Some_render [OF assms(1,2)] by (cases "type l") auto
qed

lemma spliced_render:
  assumes "\<forall>l \<in> set L. P l" "P []" "\<forall>h \<in> set hs. \<forall>x \<in> set (lines h). P (content x)"
  shows "\<forall>y \<in> set (spliced (map Some L) c hs). P (render y)"
  using assms(3)
proof (induction hs arbitrary: c)
  case Nil
  have "y \<in> set (drop c (map Some L)) \<Longrightarrow> P (render y)" for y
    using assms(1) in_set_dropD [of y c "map Some L"] by auto
  then show ?case by simp
next
  case (Cons h hs)
  have "\<forall>y \<in> set (map (atN (map Some L)) [c..<start h]). P (render y)"
    using atN_map_Some_render [OF assms(1,2)] by auto
  moreover have "\<forall>y \<in> set (hunkOutput (map Some L) (start h) (lines h)). P (render y)"
  proof (rule hunkOutput_render [OF assms(1,2)])
    show "\<forall>x \<in> set (lines h). P (content x)" using Cons.prems by simp
  qed
  moreover have "\<forall>y \<in> set (spliced (map Some L) (start h + consumed (lines h)) hs). P (render y)"
  proof (rule Cons.IH)
    show "\<forall>h \<in> set hs. \<forall>x \<in> set (lines h). P (content x)" using Cons.prems by simp
  qed
  ultimately show ?case by auto
qed

lemma all_whitespaceOnly_validates:
  "\<forall>h \<in> set hs. whitespaceOnly L h \<Longrightarrow> validateAll L strict hs = Inr ()"
  by (simp add: validateAll_strict revalidateNormalized_ok list_all_iff whitespaceOnly_passes)

text \<open>
  C6. When every context and delete line of every hunk differs from the original line
  under its cursor by leading and trailing white space at most, the batch validates
  (through the normalized fallback where a line is not exactly equal), and for hunks in
  order that do not overlap, the line of the produced output that stands where a context
  line of a hunk is written is the original's line, exactly as it was, whatever the hunk's
  own text of that line is.
\<close>

theorem normalized_keeps_original_text:
  assumes parse: "parseUnifiedDiffHunks (diffLinesOf unifiedDiff) = Inr hunks"
    and ws: "\<forall>h \<in> set hunks. whitespaceOnly (originalLinesOf originalContent) h"
    and ord: "ordered 0 hunks"
    and k: "k < length hunks"
    and j: "j < length (lines (hunks ! k))"
    and ctx: "type (lines (hunks ! k) ! j) = Context"
  shows "validateAll (originalLinesOf originalContent) strict hunks = Inr ()
       \<and> start (hunks ! k) + consumed (take j (lines (hunks ! k)))
           < length (originalLinesOf originalContent)
       \<and> (\<exists>result. applyUnifiedDiff originalContent unifiedDiff = Inr result
            \<and> splitLF result ! (editPosition hunks k + kept (take j (lines (hunks ! k))))
                = originalLinesOf originalContent
                    ! (start (hunks ! k) + consumed (take j (lines (hunks ! k)))))"
proof -
  let ?L = "originalLinesOf originalContent"
  let ?h = "hunks ! k"
  let ?q = "start ?h + consumed (take j (lines ?h))"
  let ?p = "editPosition hunks k + kept (take j (lines ?h))"
  let ?out = "spliced (map Some ?L) 0 hunks"
  have v: "validateAll ?L strict hunks = Inr ()"
    by (rule all_whitespaceOnly_validates [OF ws])
  have res: "applyUnifiedDiff originalContent unifiedDiff = Inr (joinArray ?out)"
    by (simp add: applyUnifiedDiff_def parse v applyLoop_spliced [OF ord])
  have hk: "?h \<in> set hunks" using k by simp
  then have tm: "trimMatches ?L (start ?h) (lines ?h)"
    using ws by (simp add: whitespaceOnly_def)
  have q: "?q < length ?L"
    using trimMatches_line [OF tm j] ctx by simp
  from spliced_decompose [OF ord k, of "map Some ?L"] obtain pre post where
    sp: "?out = pre @ hunkOutput (map Some ?L) (start ?h) (lines ?h) @ post"
    and len: "int (length pre) = int (start ?h) + sum_list (map netChange (take k hunks))"
    by auto
  have pre: "editPosition hunks k = length pre"
    unfolding editPosition_def using len by simp
  have kl: "kept (take j (lines ?h)) < length (hunkOutput (map Some ?L) (start ?h) (lines ?h))"
    using kept_take_less [OF j] ctx by (simp add: length_hunkOutput)
  have "?out ! ?p = hunkOutput (map Some ?L) (start ?h) (lines ?h) ! kept (take j (lines ?h))"
    using kl by (simp add: sp pre nth_append)
  also have "\<dots> = atN (map Some ?L) ?q"
    by (rule hunkOutput_context_at [OF j ctx])
  also have "\<dots> = Some (?L ! ?q)" using q by (simp add: atN_def)
  finally have at: "?out ! ?p = Some (?L ! ?q)" .
  have plen: "?p < length ?out" using kl by (simp add: sp pre)
  have nolf: "\<forall>y \<in> set ?out. LF \<notin> set (render y)"
    by (rule spliced_render [where P = "\<lambda>t. LF \<notin> set t"])
       (use originalLinesOf_no_LF parse_no_LF [OF parse] in auto)
  have "splitLF (joinArray ?out) = map render ?out"
    unfolding joinArray_def using plen nolf by (intro splitLF_joinLF) auto
  then have "splitLF (joinArray ?out) ! ?p = ?L ! ?q"
    using plen at by simp
  then show ?thesis using v q res by simp
qed

theorem normalized_keeps_original_text_witness:
  "whitespaceOnly [''  line1  '', ''line2'', ''  line3'']
     \<lparr> oldStart = 0, oldCount = 3, newStart = 0, newCount = 3,
       lines = [\<lparr> type = Context, content = ''line1'' \<rparr>, \<lparr> type = Delete, content = ''line2'' \<rparr>,
                \<lparr> type = Add, content = ''modified'' \<rparr>, \<lparr> type = Context, content = ''line3'' \<rparr>] \<rparr>
   \<and> applyUnifiedDiff ''  line1  \<newline>line2\<newline>  line3''
         ''@@ -1,3 +1,3 @@\<newline> line1\<newline>-line2\<newline>+modified\<newline> line3''
       = Inr ''  line1  \<newline>modified\<newline>  line3''
   \<and> splitLF ''  line1  \<newline>modified\<newline>  line3'' ! 2 = ''  line3''"
  (is "whitespaceOnly ?L ?h \<and> applyUnifiedDiff ?c ?d = Inr ?r \<and> _")
proof -
  have ol: "originalLinesOf ?c = ?L" by code_simp
  have p: "parseUnifiedDiffHunks (diffLinesOf ?d) = Inr [?h]" by code_simp
  have w: "whitespaceOnly ?L ?h"
    by (simp add: whitespaceOnly_def start_def trim_def isWhiteSpace_def)
  have ws: "\<forall>h \<in> set [?h]. whitespaceOnly (originalLinesOf ?c) h" using w ol by simp
  have ord: "ordered 0 [?h]" by (simp add: start_def)
  have r: "applyUnifiedDiff ?c ?d = Inr ?r" by code_simp
  have pos: "editPosition [?h] 0 + kept (take 3 (lines ([?h] ! 0))) = 2"
    by (simp add: editPosition_def start_def)
  have q: "start ([?h] ! 0) + consumed (take 3 (lines ([?h] ! 0))) = 2"
    by (simp add: start_def)
  from normalized_keeps_original_text [OF p ws ord, of 0 3]
  obtain result where "applyUnifiedDiff ?c ?d = Inr result"
    and "splitLF result ! (editPosition [?h] 0 + kept (take 3 (lines ([?h] ! 0))))
           = originalLinesOf ?c ! (start ([?h] ! 0) + consumed (take 3 (lines ([?h] ! 0))))"
    by auto
  then have "splitLF ?r ! 2 = ?L ! 2" using r unfolding pos q ol by simp
  then show ?thesis using w r by simp
qed

subsection \<open>Applying a diff twice\<close>







lemma replaceCRLF_Nil_iff: "replaceCRLF s = [] \<longleftrightarrow> s = []"
  by (induction s rule: replaceCRLF.induct) auto













end
